theory Spec2Isabelle
  imports Complex_Main "HOL-Library.Word"
begin

section \<open>Log levels and log messages\<close>

text \<open>
  \<^verbatim>\<open>enum class LogLevel : uint8_t { TRACE = 0, ..., OFF = 6 }\<close> of log_level.hpp.
  The comparison operators of the header cast both sides to \<^verbatim>\<open>uint8_t\<close>.
\<close>

datatype LogLevel = TRACE | DEBUG | INFO | WARN | ERROR | FATAL | OFF

fun level_u8 :: "LogLevel \<Rightarrow> 8 word" where
  "level_u8 TRACE = 0"
| "level_u8 DEBUG = 1"
| "level_u8 INFO = 2"
| "level_u8 WARN = 3"
| "level_u8 ERROR = 4"
| "level_u8 FATAL = 5"
| "level_u8 OFF = 6"

text \<open>\<^verbatim>\<open>operator>=(LogLevel lhs, LogLevel rhs)\<close>.\<close>

definition level_ge :: "LogLevel \<Rightarrow> LogLevel \<Rightarrow> bool" where
  "level_ge lhs rhs = (level_u8 rhs \<le> level_u8 lhs)"

text \<open>
  The fields of \<^verbatim>\<open>class LogMessage\<close> (log_message.hpp). A data member \<^verbatim>\<open>x_\<close> of
  the source is the field \<open>x_m\<close> here and below, since a name cannot end in an
  underscore. The time stamp and the thread id are opaque to the engine; they are kept as
  numbers.
\<close>

record LogMessage =
  level_m :: LogLevel
  message_m :: string
  file_m :: string
  line_m :: "32 word"
  function_m :: string
  timestamp_m :: nat
  thread_id_m :: nat

section \<open>ThreadSafeQueue and BatchQueue\<close>

text \<open>
  thread_safe_queue.hpp. Every member function takes the queue's mutex on entry, so a call
  is one atomic step on the fields, except where it waits on a condition variable:
  \<^verbatim>\<open>cv.wait(lock, pred)\<close> suspends the caller while \<^verbatim>\<open>pred\<close> is false and evaluates
  \<^verbatim>\<open>pred\<close> again, under the lock, every time the caller is woken. A call that has to wait
  is the outcome \<open>Waits\<close>, with the queue unchanged; it resumes at the wait, in whatever
  state the queue then has. \<^verbatim>\<open>size_t\<close> sizes are natural numbers: the length of the
  underlying \<^verbatim>\<open>std::queue\<close> cannot wrap.
\<close>

datatype 'r call = Waits | Returned 'r

record 'a ThreadSafeQueue =
  queue_m :: "'a list"
  max_size_m :: nat
  shutdown_m :: bool

record 'a BatchQueue = "'a ThreadSafeQueue" +
  batch_size_m :: nat

text \<open>The constructors: \<^verbatim>\<open>max_size_(max_size), shutdown_(false)\<close>, the queue empty.\<close>

definition ThreadSafeQueue_init :: "nat \<Rightarrow> 'a ThreadSafeQueue" where
  "ThreadSafeQueue_init max_size = \<lparr>queue_m = [], max_size_m = max_size, shutdown_m = False\<rparr>"

definition BatchQueue_init :: "nat \<Rightarrow> nat \<Rightarrow> 'a BatchQueue" where
  "BatchQueue_init max_size batch_size =
     \<lparr>queue_m = [], max_size_m = max_size, shutdown_m = False, batch_size_m = batch_size\<rparr>"

text \<open>
  \<^verbatim>\<open>push\<close> from its \<^verbatim>\<open>not_full_.wait\<close> on (the point where a waiting call resumes), and
  \<^verbatim>\<open>push\<close> from its entry. Both overloads (\<^verbatim>\<open>const T&\<close>, \<^verbatim>\<open>T&&\<close>) have this body.
\<close>

definition push_wait ::
  "('a, 'z) ThreadSafeQueue_scheme \<Rightarrow> 'a \<Rightarrow> bool call \<times> ('a, 'z) ThreadSafeQueue_scheme" where
  "push_wait q item =
     (if \<not> (length (queue_m q) < max_size_m q \<or> shutdown_m q) then (Waits, q)
      else if shutdown_m q then (Returned False, q)
      else (Returned True, q\<lparr>queue_m := queue_m q @ [item]\<rparr>))"

definition push ::
  "('a, 'z) ThreadSafeQueue_scheme \<Rightarrow> 'a \<Rightarrow> bool call \<times> ('a, 'z) ThreadSafeQueue_scheme" where
  "push q item =
     (if shutdown_m q then (Returned False, q)
      else if 0 < max_size_m q then push_wait q item
      else (Returned True, q\<lparr>queue_m := queue_m q @ [item]\<rparr>))"

definition try_push ::
  "('a, 'z) ThreadSafeQueue_scheme \<Rightarrow> 'a \<Rightarrow> bool \<times> ('a, 'z) ThreadSafeQueue_scheme" where
  "try_push q item =
     (if shutdown_m q then (False, q)
      else if 0 < max_size_m q \<and> max_size_m q \<le> length (queue_m q) then (False, q)
      else (True, q\<lparr>queue_m := queue_m q @ [item]\<rparr>))"

text \<open>
  \<^verbatim>\<open>bool pop(T& item)\<close>: the result \<open>Some x\<close> is \<^verbatim>\<open>true\<close> with \<^verbatim>\<open>item = x\<close>, and \<open>None\<close>
  is \<^verbatim>\<open>false\<close> with \<^verbatim>\<open>item\<close> untouched.
\<close>

definition pop ::
  "('a, 'z) ThreadSafeQueue_scheme \<Rightarrow> 'a option call \<times> ('a, 'z) ThreadSafeQueue_scheme" where
  "pop q =
     (if \<not> (queue_m q \<noteq> [] \<or> shutdown_m q) then (Waits, q)
      else if shutdown_m q \<and> queue_m q = [] then (Returned None, q)
      else (Returned (Some (hd (queue_m q))), q\<lparr>queue_m := tl (queue_m q)\<rparr>))"

definition try_pop ::
  "('a, 'z) ThreadSafeQueue_scheme \<Rightarrow> 'a option \<times> ('a, 'z) ThreadSafeQueue_scheme" where
  "try_pop q =
     (if queue_m q = [] then (None, q)
      else (Some (hd (queue_m q)), q\<lparr>queue_m := tl (queue_m q)\<rparr>))"

definition size_q :: "('a, 'z) ThreadSafeQueue_scheme \<Rightarrow> nat" where
  "size_q q = length (queue_m q)"

definition empty_q :: "('a, 'z) ThreadSafeQueue_scheme \<Rightarrow> bool" where
  "empty_q q = (queue_m q = [])"

definition full :: "('a, 'z) ThreadSafeQueue_scheme \<Rightarrow> bool" where
  "full q = (if max_size_m q = 0 then False else max_size_m q \<le> length (queue_m q))"

text \<open>\<^verbatim>\<open>clear\<close>: \<^verbatim>\<open>while (!queue_.empty()) queue_.pop();\<close>\<close>

fun clear_loop :: "'a list \<Rightarrow> 'a list" where
  "clear_loop [] = []"
| "clear_loop (x # xs) = clear_loop xs"

definition clear :: "('a, 'z) ThreadSafeQueue_scheme \<Rightarrow> ('a, 'z) ThreadSafeQueue_scheme" where
  "clear q = q\<lparr>queue_m := clear_loop (queue_m q)\<rparr>"

definition shutdown :: "('a, 'z) ThreadSafeQueue_scheme \<Rightarrow> ('a, 'z) ThreadSafeQueue_scheme" where
  "shutdown q = q\<lparr>shutdown_m := True\<rparr>"

definition is_shutdown :: "('a, 'z) ThreadSafeQueue_scheme \<Rightarrow> bool" where
  "is_shutdown q = shutdown_m q"

definition get_max_size :: "('a, 'z) ThreadSafeQueue_scheme \<Rightarrow> nat" where
  "get_max_size q = max_size_m q"

definition capacity :: "('a, 'z) BatchQueue_scheme \<Rightarrow> nat" where
  "capacity q = get_max_size q"

text \<open>
  The loop shared by \<^verbatim>\<open>pop_batch\<close> and \<^verbatim>\<open>try_pop_batch\<close>:
  \<^verbatim>\<open>while (!queue_.empty() && count < max_items) { batch.push_back(front); pop; count++; }\<close>
  on the queue's contents, the batch and the count.
\<close>

fun batch_loop :: "'a list \<Rightarrow> 'a list \<Rightarrow> nat \<Rightarrow> nat \<Rightarrow> 'a list \<times> 'a list \<times> nat" where
  "batch_loop [] batch count max_items = ([], batch, count)"
| "batch_loop (x # xs) batch count max_items =
     (if count < max_items then batch_loop xs (batch @ [x]) (Suc count) max_items
      else (x # xs, batch, count))"

text \<open>
  \<^verbatim>\<open>size_t pop_batch(Batch& batch, size_t max_items = 0)\<close>: the result is the count, the
  batch after the call and the queue after the call. On shutdown with an empty queue the
  batch is returned as it came in.
\<close>

definition pop_batch ::
  "('a, 'z) BatchQueue_scheme \<Rightarrow> 'a list \<Rightarrow> nat
     \<Rightarrow> nat call \<times> 'a list \<times> ('a, 'z) BatchQueue_scheme" where
  "pop_batch q batch max_items0 =
     (let max_items = (if max_items0 = 0 then batch_size_m q else max_items0) in
      if \<not> (queue_m q \<noteq> [] \<or> shutdown_m q) then (Waits, batch, q)
      else if shutdown_m q \<and> queue_m q = [] then (Returned 0, batch, q)
      else (case batch_loop (queue_m q) [] 0 max_items of
              (rest, batch', count) \<Rightarrow> (Returned count, batch', q\<lparr>queue_m := rest\<rparr>)))"

definition try_pop_batch ::
  "('a, 'z) BatchQueue_scheme \<Rightarrow> 'a list \<Rightarrow> nat \<Rightarrow> nat \<times> 'a list \<times> ('a, 'z) BatchQueue_scheme" where
  "try_pop_batch q batch max_items0 =
     (let max_items = (if max_items0 = 0 then batch_size_m q else max_items0) in
      if queue_m q = [] then (0, batch, q)
      else (case batch_loop (queue_m q) [] 0 max_items of
              (rest, batch', count) \<Rightarrow> (count, batch', q\<lparr>queue_m := rest\<rparr>)))"

text \<open>
  A consumer that calls \<^verbatim>\<open>pop\<close> a number of times in a row and records each outcome; it
  stops at a call that has to wait.
\<close>

fun pop_times ::
  "nat \<Rightarrow> ('a, 'z) ThreadSafeQueue_scheme
     \<Rightarrow> 'a option call list \<times> ('a, 'z) ThreadSafeQueue_scheme" where
  "pop_times 0 q = ([], q)"
| "pop_times (Suc n) q =
     (case pop q of
        (Waits, q') \<Rightarrow> ([Waits], q')
      | (Returned r, q') \<Rightarrow> (case pop_times n q' of (rs, q'') \<Rightarrow> (Returned r # rs, q'')))"

text \<open>The capacity bound: a queue with a capacity holds at most that many items.\<close>

definition within_capacity :: "('a, 'z) ThreadSafeQueue_scheme \<Rightarrow> bool" where
  "within_capacity q = (0 < max_size_m q \<longrightarrow> length (queue_m q) \<le> max_size_m q)"

section \<open>Sinks\<close>

text \<open>
  log_sink.hpp. \<^verbatim>\<open>LogSink::log\<close> and \<^verbatim>\<open>LogSink::flush\<close> are pure virtual; the classes that
  implement them by writing somewhere (console, file) are \<open>ExternalSink\<close>: an identity,
  the threshold \<^verbatim>\<open>level_\<close>, on which records its \<^verbatim>\<open>log\<close> raises, and whether its
  \<^verbatim>\<open>flush\<close> raises. What such a sink has written is a trace of events shared by all sinks,
  so that the order of writes across sinks is visible. \<open>CompositeLogSink\<close> holds
  \<^verbatim>\<open>level_\<close> and \<^verbatim>\<open>sinks_\<close>; \<open>FilterLogSink\<close> holds its own (inherited) \<^verbatim>\<open>level_\<close>, the
  wrapped \<^verbatim>\<open>sink_\<close> and \<^verbatim>\<open>filter_\<close>, a \<^verbatim>\<open>std::function\<close> that may be empty. Sink handles
  are never null here.
\<close>

datatype LogSink =
  ExternalSink nat LogLevel "LogMessage \<Rightarrow> bool" bool
| CompositeLogSink LogLevel "LogSink list"
| FilterLogSink LogLevel LogSink "(LogMessage \<Rightarrow> bool) option"

datatype event = Write nat LogMessage | Flush nat

text \<open>How a call ends: it returns, or an exception leaves it.\<close>

datatype status = Normal | Thrown

fun get_level :: "LogSink \<Rightarrow> LogLevel" where
  "get_level (ExternalSink i l w f) = l"
| "get_level (CompositeLogSink l cs) = l"
| "get_level (FilterLogSink l c p) = get_level c"

fun should_log :: "LogSink \<Rightarrow> LogLevel \<Rightarrow> bool" where
  "should_log (ExternalSink i l w f) lv = level_ge lv l"
| "should_log (CompositeLogSink l cs) lv = level_ge lv l"
| "should_log (FilterLogSink l c p) lv = should_log c lv"

text \<open>
  \<^verbatim>\<open>log\<close> of each class; \<open>composite_log\<close> is the loop of \<^verbatim>\<open>CompositeLogSink::log\<close> over
  \<^verbatim>\<open>sinks_\<close>. No function of the header catches anything, so an exception raised by a
  sink ends every enclosing loop.
\<close>

fun sink_log :: "LogSink \<Rightarrow> LogMessage \<Rightarrow> event list \<Rightarrow> status \<times> event list"
and composite_log :: "LogSink list \<Rightarrow> LogMessage \<Rightarrow> event list \<Rightarrow> status \<times> event list" where
  "sink_log (ExternalSink i l w f) m tr =
     (if w m then (Thrown, tr) else (Normal, tr @ [Write i m]))"
| "sink_log (CompositeLogSink l cs) m tr = composite_log cs m tr"
| "sink_log (FilterLogSink l c p) m tr =
     (case p of
        None \<Rightarrow> (Normal, tr)
      | Some filter_fn \<Rightarrow> if filter_fn m then sink_log c m tr else (Normal, tr))"
| "composite_log [] m tr = (Normal, tr)"
| "composite_log (c # cs) m tr =
     (if should_log c (level_m m) then
        (case sink_log c m tr of
           (Normal, tr') \<Rightarrow> composite_log cs m tr'
         | (Thrown, tr') \<Rightarrow> (Thrown, tr'))
      else composite_log cs m tr)"

fun sink_flush :: "LogSink \<Rightarrow> event list \<Rightarrow> status \<times> event list"
and composite_flush :: "LogSink list \<Rightarrow> event list \<Rightarrow> status \<times> event list" where
  "sink_flush (ExternalSink i l w f) tr =
     (if f then (Thrown, tr) else (Normal, tr @ [Flush i]))"
| "sink_flush (CompositeLogSink l cs) tr = composite_flush cs tr"
| "sink_flush (FilterLogSink l c p) tr = sink_flush c tr"
| "composite_flush [] tr = (Normal, tr)"
| "composite_flush (c # cs) tr =
     (case sink_flush c tr of
        (Normal, tr') \<Rightarrow> composite_flush cs tr'
      | (Thrown, tr') \<Rightarrow> (Thrown, tr'))"

section \<open>AsyncLogger\<close>

text \<open>
  async_logger.hpp. A \<^verbatim>\<open>std::thread\<close> that was started is joinable until it is joined;
  destroying a joinable \<^verbatim>\<open>std::thread\<close> calls \<^verbatim>\<open>std::terminate\<close>, which ends the
  process. \<open>Terminate\<close> is that outcome.
\<close>

record AsyncLoggerConfig =
  queue_size :: nat
  batch_size :: nat
  flush_interval_ms :: "32 word"
  worker_threads :: nat
  auto_flush :: bool
  memory_pool_size :: nat
  max_memory_pool_blocks :: nat
  enable_performance_monitoring :: bool

definition AsyncLoggerConfig_default :: AsyncLoggerConfig where
  "AsyncLoggerConfig_default =
     \<lparr>queue_size = 10000, batch_size = 100, flush_interval_ms = 1000, worker_threads = 1,
      auto_flush = True, memory_pool_size = 1024, max_memory_pool_blocks = 1000,
      enable_performance_monitoring = False\<rparr>"

datatype thread = Thread (joinable: bool)

datatype 'a fate = Returns 'a | Terminate

text \<open>
  The members of \<^verbatim>\<open>class AsyncLogger\<close>; its \<^verbatim>\<open>queue_\<close> is \<open>logger_queue_m\<close>, the name
  \<open>queue_m\<close> being the queue's own field. \<^verbatim>\<open>dropped_count_\<close> is a \<^verbatim>\<open>size_t\<close>, and
  \<^verbatim>\<open>last_flush_time_\<close> a reading of the steady clock in milliseconds.
\<close>

record AsyncLogger =
  config_m :: AsyncLoggerConfig
  logger_queue_m :: "LogMessage BatchQueue"
  sinks_m :: "LogSink list"
  workers_m :: "thread list"
  running_m :: bool
  stop_requested_m :: bool
  last_flush_time_m :: nat
  dropped_count_m :: nat

text \<open>
  The constructor: \<^verbatim>\<open>config_(config), queue_(config.queue_size), running_(false),
  stop_requested_(false)\<close>, and \<^verbatim>\<open>dropped_count_{0}\<close>; the queue's batch size is the
  default argument 100 of \<^verbatim>\<open>BatchQueue\<close>, and \<^verbatim>\<open>last_flush_time_\<close> is the clock's epoch.
\<close>

definition AsyncLogger_init :: "AsyncLoggerConfig \<Rightarrow> AsyncLogger" where
  "AsyncLogger_init config =
     \<lparr>config_m = config, logger_queue_m = BatchQueue_init (queue_size config) 100,
      sinks_m = [], workers_m = [], running_m = False, stop_requested_m = False,
      last_flush_time_m = 0, dropped_count_m = 0\<rparr>"

text \<open>\<^verbatim>\<open>start\<close>: the loop \<^verbatim>\<open>for (i = 0; i < worker_threads; ++i) workers_.emplace_back(...)\<close>.\<close>

fun spawn_workers :: "nat \<Rightarrow> thread list \<Rightarrow> thread list" where
  "spawn_workers 0 ws = ws"
| "spawn_workers (Suc n) ws = spawn_workers n (ws @ [Thread True])"

definition start :: "AsyncLogger \<Rightarrow> AsyncLogger" where
  "start e =
     (if running_m e then e
      else e\<lparr>running_m := True, stop_requested_m := False,
             workers_m := spawn_workers (worker_threads (config_m e)) (workers_m e)\<rparr>)"

text \<open>
  \<^verbatim>\<open>stop\<close>: \<open>join_workers\<close> is the loop \<^verbatim>\<open>if (worker.joinable()) worker.join();\<close> and
  \<open>clear_workers\<close> is \<^verbatim>\<open>workers_.clear()\<close>, which destroys every thread object.
\<close>

fun join_workers :: "thread list \<Rightarrow> thread list" where
  "join_workers [] = []"
| "join_workers (w # ws) = (if joinable w then Thread False else w) # join_workers ws"

fun clear_workers :: "thread list \<Rightarrow> thread list fate" where
  "clear_workers [] = Returns []"
| "clear_workers (w # ws) = (if joinable w then Terminate else clear_workers ws)"

definition stop :: "bool \<Rightarrow> AsyncLogger \<Rightarrow> AsyncLogger fate" where
  "stop wait_for_completion e =
     (if \<not> running_m e then Returns e
      else
        let e1 = e\<lparr>stop_requested_m := True\<rparr>;
            e2 = (if wait_for_completion then e1\<lparr>workers_m := join_workers (workers_m e1)\<rparr>
                  else e1)
        in case clear_workers (workers_m e2) of
             Terminate \<Rightarrow> Terminate
           | Returns ws \<Rightarrow> Returns (e2\<lparr>workers_m := ws, running_m := False\<rparr>))"

text \<open>\<^verbatim>\<open>bool AsyncLogger::log(LogMessage message)\<close>.\<close>

definition AsyncLogger_log :: "AsyncLogger \<Rightarrow> LogMessage \<Rightarrow> bool \<times> AsyncLogger" where
  "AsyncLogger_log e message =
     (if \<not> running_m e then (False, e)
      else (case try_push (logger_queue_m e) message of
              (ok, q') \<Rightarrow> (ok, e\<lparr>logger_queue_m := q'\<rparr>)))"

definition add_sink :: "AsyncLogger \<Rightarrow> LogSink \<Rightarrow> AsyncLogger" where
  "add_sink e sink = e\<lparr>sinks_m := sinks_m e @ [sink]\<rparr>"

text \<open>
  \<^verbatim>\<open>AsyncLogger::flush\<close>, at the clock reading \<open>now\<close>:
  \<^verbatim>\<open>for (auto& sink : sinks_) sink->flush(); last_flush_time_ = now();\<close>
\<close>

fun flush_loop :: "LogSink list \<Rightarrow> event list \<Rightarrow> status \<times> event list" where
  "flush_loop [] tr = (Normal, tr)"
| "flush_loop (sink # sinks) tr =
     (case sink_flush sink tr of
        (Normal, tr') \<Rightarrow> flush_loop sinks tr'
      | (Thrown, tr') \<Rightarrow> (Thrown, tr'))"

definition flush ::
  "AsyncLogger \<Rightarrow> nat \<Rightarrow> event list \<Rightarrow> status \<times> AsyncLogger \<times> event list" where
  "flush e now tr =
     (case flush_loop (sinks_m e) tr of
        (Normal, tr') \<Rightarrow> (Normal, e\<lparr>last_flush_time_m := now\<rparr>, tr')
      | (Thrown, tr') \<Rightarrow> (Thrown, e, tr'))"

definition get_queue_size :: "AsyncLogger \<Rightarrow> nat" where
  "get_queue_size e = size_q (logger_queue_m e)"

definition get_queue_capacity :: "AsyncLogger \<Rightarrow> nat" where
  "get_queue_capacity e = capacity (logger_queue_m e)"

definition get_dropped_count :: "AsyncLogger \<Rightarrow> nat" where
  "get_dropped_count e = dropped_count_m e"

text \<open>
  \<^verbatim>\<open>get_drop_rate\<close>: the sum is a \<^verbatim>\<open>size_t\<close> sum, and the quotient of the two
  \<^verbatim>\<open>double\<close>s is taken here as the exact quotient.
\<close>

definition get_drop_rate :: "AsyncLogger \<Rightarrow> real" where
  "get_drop_rate e =
     (let total = (get_queue_size e + get_dropped_count e) mod 2 ^ 64 in
      if 0 < total then real (get_dropped_count e) / real total else 0)"

text \<open>
  The loop over \<^verbatim>\<open>sinks_\<close> that is the body of \<^verbatim>\<open>process_message\<close> and the inner loop of
  \<^verbatim>\<open>process_batch\<close>:
  \<^verbatim>\<open>for (auto& sink : sinks_) if (sink->should_log(msg.level())) sink->log(msg);\<close>
\<close>

fun sinks_loop :: "LogSink list \<Rightarrow> LogMessage \<Rightarrow> event list \<Rightarrow> status \<times> event list" where
  "sinks_loop [] msg tr = (Normal, tr)"
| "sinks_loop (sink # sinks) msg tr =
     (if should_log sink (level_m msg) then
        (case sink_log sink msg tr of
           (Normal, tr') \<Rightarrow> sinks_loop sinks msg tr'
         | (Thrown, tr') \<Rightarrow> (Thrown, tr'))
      else sinks_loop sinks msg tr)"

definition process_message :: "AsyncLogger \<Rightarrow> LogMessage \<Rightarrow> event list \<Rightarrow> status \<times> event list" where
  "process_message e msg tr = sinks_loop (sinks_m e) msg tr"

fun batch_messages_loop ::
  "LogSink list \<Rightarrow> LogMessage list \<Rightarrow> event list \<Rightarrow> status \<times> event list" where
  "batch_messages_loop sinks [] tr = (Normal, tr)"
| "batch_messages_loop sinks (msg # batch) tr =
     (case sinks_loop sinks msg tr of
        (Normal, tr') \<Rightarrow> batch_messages_loop sinks batch tr'
      | (Thrown, tr') \<Rightarrow> (Thrown, tr'))"

definition process_batch ::
  "AsyncLogger \<Rightarrow> LogMessage list \<Rightarrow> event list \<Rightarrow> status \<times> event list" where
  "process_batch e batch tr = batch_messages_loop (sinks_m e) batch tr"

text \<open>
  The end of \<^verbatim>\<open>worker_thread_func\<close>, after its main loop:
  \<^verbatim>\<open>while (queue_.try_pop(remaining_msg)) process_message(remaining_msg);\<close>
  as a recursion on the queue's contents (no producer adds to the queue meanwhile). An
  exception of \<^verbatim>\<open>process_message\<close> leaves the thread function, which has no handler.
\<close>

fun remaining_loop ::
  "LogSink list \<Rightarrow> LogMessage list \<Rightarrow> event list \<Rightarrow> status \<times> LogMessage list \<times> event list" where
  "remaining_loop sinks [] tr = (Normal, [], tr)"
| "remaining_loop sinks (msg # pending) tr =
     (case sinks_loop sinks msg tr of
        (Normal, tr') \<Rightarrow> remaining_loop sinks pending tr'
      | (Thrown, tr') \<Rightarrow> (Thrown, pending, tr'))"

definition worker_exit :: "AsyncLogger \<Rightarrow> event list \<Rightarrow> status \<times> AsyncLogger \<times> event list" where
  "worker_exit e tr =
     (case remaining_loop (sinks_m e) (queue_m (logger_queue_m e)) tr of
        (st, pending, tr') \<Rightarrow>
          (st, e\<lparr>logger_queue_m := (logger_queue_m e)\<lparr>queue_m := pending\<rparr>\<rparr>, tr'))"

section \<open>Callers and sample objects\<close>

text \<open>
  The constructor \<^verbatim>\<open>LogMessage(level, message)\<close> with its default file, line and function,
  at clock reading 0 on thread 0.
\<close>

definition mk_message :: "LogLevel \<Rightarrow> string \<Rightarrow> LogMessage" where
  "mk_message level message =
     \<lparr>level_m = level, message_m = message, file_m = [], line_m = 0, function_m = [],
      timestamp_m = 0, thread_id_m = 0\<rparr>"

text \<open>A producer that calls \<^verbatim>\<open>log\<close> on each record of a list and collects the results.\<close>

fun log_all :: "AsyncLogger \<Rightarrow> LogMessage list \<Rightarrow> bool list \<times> AsyncLogger" where
  "log_all e [] = ([], e)"
| "log_all e (m # ms) =
     (case AsyncLogger_log e m of
        (ok, e') \<Rightarrow> (case log_all e' ms of (oks, e'') \<Rightarrow> (ok # oks, e'')))"

text \<open>
  A started engine of capacity 2 on which records A and B were logged and no worker has
  dequeued yet, and the outcome of five \<^verbatim>\<open>log\<close> calls on a started engine of capacity 3.
\<close>

definition two_slot_engine :: AsyncLogger where
  "two_slot_engine =
     snd (log_all (start (AsyncLogger_init (AsyncLoggerConfig_default\<lparr>queue_size := 2\<rparr>)))
            [mk_message INFO ''A'', mk_message INFO ''B''])"

definition five_logs :: "bool list \<times> AsyncLogger" where
  "five_logs =
     log_all (start (AsyncLogger_init (AsyncLoggerConfig_default\<lparr>queue_size := 3\<rparr>)))
       [mk_message INFO ''1'', mk_message INFO ''2'', mk_message INFO ''3'',
        mk_message INFO ''4'', mk_message INFO ''5'']"

definition default_engine :: AsyncLogger where
  "default_engine = AsyncLogger_init AsyncLoggerConfig_default"

text \<open>Queues of characters: an unbounded one holding abc, and one of capacity 2 holding ab.\<close>

definition abc_queue :: "char BatchQueue" where
  "abc_queue = BatchQueue_init 0 100 \<lparr>queue_m := ''abc''\<rparr>"

definition ab_queue :: "char BatchQueue" where
  "ab_queue = BatchQueue_init 2 100 \<lparr>queue_m := ''ab''\<rparr>"

text \<open>
  An engine with the given sinks added in order, a sink whose write always raises, two
  sinks that write (thresholds INFO and ERROR), and a filter with the predicate
  \<^verbatim>\<open>level >= WARN\<close> around a sink of threshold TRACE.
\<close>

definition with_sinks :: "LogSink list \<Rightarrow> AsyncLogger" where
  "with_sinks sinks = foldl add_sink (AsyncLogger_init AsyncLoggerConfig_default) sinks"

definition failing_sink :: LogSink where
  "failing_sink = ExternalSink 1 INFO (\<lambda>msg. True) False"

definition info_sink :: LogSink where
  "info_sink = ExternalSink 2 INFO (\<lambda>msg. False) False"

definition error_sink :: LogSink where
  "error_sink = ExternalSink 3 ERROR (\<lambda>msg. False) False"

definition trace_sink :: LogSink where
  "trace_sink = ExternalSink 4 TRACE (\<lambda>msg. False) False"

definition at_least_warn :: "LogMessage \<Rightarrow> bool" where
  "at_least_warn msg = level_ge (level_m msg) WARN"

definition warn_filter_sink :: LogSink where
  "warn_filter_sink = FilterLogSink INFO trace_sink (Some at_least_warn)"

section \<open>Properties of the queue\<close>

lemma clear_loop_empty: "clear_loop xs = []"
  by (induction xs) simp_all

lemma batch_loop_split:
  "batch_loop xs batch count max_items =
     (drop (max_items - count) xs, batch @ take (max_items - count) xs,
      count + min (length xs) (max_items - count))"
proof (induction xs arbitrary: batch count)
  case Nil
  show ?case by simp
next
  case (Cons x xs)
  show ?case
  proof (cases "count < max_items")
    case True
    then have step: "max_items - count = Suc (max_items - Suc count)" by simp
    show ?thesis using True Cons [of "batch @ [x]" "Suc count"]
      by (simp add: step)
  next
    case False
    then show ?thesis by simp
  qed
qed

lemma pop_times_after_shutdown:
  "shutdown_m q \<Longrightarrow>
     fst (pop_times (Suc (length (queue_m q))) q) =
       map (\<lambda>x. Returned (Some x)) (queue_m q) @ [Returned None]"
proof (induction "queue_m q" arbitrary: q)
  case Nil
  then show ?case by (simp add: pop_def)
next
  case (Cons x xs)
  let ?q' = "q\<lparr>queue_m := xs\<rparr>"
  have q: "queue_m q = x # xs" using Cons.hyps(2) by simp
  have popq: "pop q = (Returned (Some x), ?q')"
    using Cons.prems q by (simp add: pop_def)
  have ih: "fst (pop_times (Suc (length (queue_m ?q'))) ?q') =
       map (\<lambda>x. Returned (Some x)) (queue_m ?q') @ [Returned None]"
    using Cons.hyps(1) [of ?q'] Cons.prems by simp
  have "pop_times (Suc (length (queue_m q))) q =
      (case pop_times (Suc (length xs)) ?q' of (rs, q'') \<Rightarrow> (Returned (Some x) # rs, q''))"
    using popq q by simp
  then show ?case using ih q by (simp add: case_prod_beta)
qed

lemma pop_times_keeps_shutdown: "shutdown_m q \<Longrightarrow> shutdown_m (snd (pop_times n q))"
proof (induction n arbitrary: q)
  case 0
  then show ?case by simp
next
  case (Suc n)
  show ?case
  proof (cases "queue_m q = []")
    case True
    then have "pop q = (Returned None, q)" using Suc.prems by (simp add: pop_def)
    then show ?thesis using Suc.IH [OF Suc.prems] by (simp add: case_prod_beta)
  next
    case False
    then have p: "pop q = (Returned (Some (hd (queue_m q))), q\<lparr>queue_m := tl (queue_m q)\<rparr>)"
      using Suc.prems by (simp add: pop_def)
    have "shutdown_m (snd (pop_times n (q\<lparr>queue_m := tl (queue_m q)\<rparr>)))"
      using Suc.IH [of "q\<lparr>queue_m := tl (queue_m q)\<rparr>"] Suc.prems by simp
    then show ?thesis using p by (simp add: case_prod_beta)
  qed
qed

text \<open>
  C4. Once \<^verbatim>\<open>shutdown\<close> has been called on a queue holding K items, \<^verbatim>\<open>push\<close> (from its
  entry or resumed from its wait) and \<^verbatim>\<open>try_push\<close> return false and store nothing; K + 1
  calls of \<^verbatim>\<open>pop\<close> in a row return the K items in the order of their insertion and then
  fail, none of them waiting; and the queue stays shut down whatever is popped.
\<close>

theorem shutdown_drains_then_closes:
  "push (shutdown q) item = (Returned False, shutdown q) \<and>
   push_wait (shutdown q) item = (Returned False, shutdown q) \<and>
   try_push (shutdown q) item = (False, shutdown q) \<and>
   fst (pop_times (Suc (length (queue_m q))) (shutdown q)) =
     map (\<lambda>x. Returned (Some x)) (queue_m q) @ [Returned None] \<and>
   shutdown_m (snd (pop_times n (shutdown q)))"
proof -
  have s: "shutdown_m (shutdown q)" and c: "queue_m (shutdown q) = queue_m q"
    by (simp_all add: shutdown_def)
  have "fst (pop_times (Suc (length (queue_m (shutdown q)))) (shutdown q)) =
     map (\<lambda>x. Returned (Some x)) (queue_m (shutdown q)) @ [Returned None]"
    using s by (rule pop_times_after_shutdown)
  then show ?thesis
    using s c pop_times_keeps_shutdown [OF s, of n]
    by (simp add: push_def push_wait_def try_push_def)
qed

text \<open>C4 on the queue holding a, b, c: four pops give a, b, c and a failure.\<close>

theorem shutdown_drains_then_closes_witness:
  "fst (pop_times 4 (shutdown abc_queue)) =
     [Returned (Some CHR ''a''), Returned (Some CHR ''b''), Returned (Some CHR ''c''),
      Returned None] \<and>
   push (shutdown abc_queue) CHR ''d'' = (Returned False, shutdown abc_queue) \<and>
   try_push (shutdown abc_queue) CHR ''d'' = (False, shutdown abc_queue)"
proof -
  have len: "Suc (length (queue_m abc_queue)) = 4"
    by (simp add: abc_queue_def BatchQueue_init_def)
  have items: "map (\<lambda>x. Returned (Some x)) (queue_m abc_queue) @ [Returned None] =
      [Returned (Some CHR ''a''), Returned (Some CHR ''b''), Returned (Some CHR ''c''),
       Returned None]"
    by (simp add: abc_queue_def BatchQueue_init_def)
  have "fst (pop_times (Suc (length (queue_m abc_queue))) (shutdown abc_queue)) =
      map (\<lambda>x. Returned (Some x)) (queue_m abc_queue) @ [Returned None] \<and>
    push (shutdown abc_queue) CHR ''d'' = (Returned False, shutdown abc_queue) \<and>
    try_push (shutdown abc_queue) CHR ''d'' = (False, shutdown abc_queue)"
    using shutdown_drains_then_closes [of abc_queue "CHR ''d''" 0] by blast
  then show ?thesis unfolding len items .
qed

text \<open>
  C5. \<^verbatim>\<open>try_push\<close> never waits (its result has no \<open>Waits\<close>). It returns false and
  leaves the queue as it is exactly when the queue is shut down or has a capacity and
  holds at least that many items; otherwise it returns true and the item is the new last
  element.
\<close>

theorem try_push_policy:
  "try_push q item =
     (if shutdown_m q \<or> (0 < max_size_m q \<and> max_size_m q \<le> length (queue_m q))
      then (False, q)
      else (True, q\<lparr>queue_m := queue_m q @ [item]\<rparr>))"
  by (simp add: try_push_def)

text \<open>C5 on a full queue of capacity 2, and on the same queue emptied.\<close>

theorem try_push_policy_witness:
  "try_push ab_queue CHR ''c'' = (False, ab_queue) \<and>
   try_push (clear ab_queue) CHR ''c'' = (True, ab_queue\<lparr>queue_m := ''c''\<rparr>)"
  using try_push_policy [of ab_queue "CHR ''c''"] try_push_policy [of "clear ab_queue" "CHR ''c''"]
  by (simp add: ab_queue_def BatchQueue_init_def clear_def)

text \<open>
  C6. A new queue is within its capacity, and every operation (\<^verbatim>\<open>push\<close> from its entry
  or resumed from its wait, \<^verbatim>\<open>try_push\<close>, \<^verbatim>\<open>pop\<close>, \<^verbatim>\<open>try_pop\<close>, \<^verbatim>\<open>pop_batch\<close>,
  \<^verbatim>\<open>try_pop_batch\<close>, \<^verbatim>\<open>clear\<close>, \<^verbatim>\<open>shutdown\<close>) takes a queue within its capacity to one
  within its capacity.
\<close>

theorem capacity_bound_invariant:
  fixes q :: "'a BatchQueue"
  assumes "within_capacity q"
  shows "within_capacity (ThreadSafeQueue_init n :: 'a ThreadSafeQueue) \<and>
         within_capacity (BatchQueue_init n b :: 'a BatchQueue) \<and>
         within_capacity (snd (push q item)) \<and>
         within_capacity (snd (push_wait q item)) \<and>
         within_capacity (snd (try_push q item)) \<and>
         within_capacity (snd (pop q)) \<and>
         within_capacity (snd (try_pop q)) \<and>
         within_capacity (snd (snd (pop_batch q batch k))) \<and>
         within_capacity (snd (snd (try_pop_batch q batch k))) \<and>
         within_capacity (clear q) \<and>
         within_capacity (shutdown q)"
proof -
  have init: "within_capacity (ThreadSafeQueue_init n :: 'a ThreadSafeQueue)"
    "within_capacity (BatchQueue_init n b :: 'a BatchQueue)"
    by (simp_all add: within_capacity_def ThreadSafeQueue_init_def BatchQueue_init_def)
  have pushes: "within_capacity (snd (push q item))" "within_capacity (snd (push_wait q item))"
    "within_capacity (snd (try_push q item))"
    using assms by (auto simp: within_capacity_def push_def push_wait_def try_push_def)
  have pops: "within_capacity (snd (pop q))" "within_capacity (snd (try_pop q))"
    using assms by (auto simp: within_capacity_def pop_def try_pop_def)
  have batches: "within_capacity (snd (snd (pop_batch q batch k)))"
    "within_capacity (snd (snd (try_pop_batch q batch k)))"
    using assms
    by (auto simp: within_capacity_def pop_batch_def try_pop_batch_def batch_loop_split Let_def)
  have rest: "within_capacity (clear q)" "within_capacity (shutdown q)"
    using assms by (simp_all add: within_capacity_def clear_def shutdown_def clear_loop_empty)
  show ?thesis using init pushes pops batches rest by simp
qed

text \<open>C6 on the full queue of capacity 2: it is within its capacity, and stays so.\<close>

theorem capacity_bound_invariant_witness:
  "within_capacity ab_queue \<and>
   within_capacity (snd (try_push ab_queue CHR ''c'')) \<and>
   within_capacity (snd (push ab_queue CHR ''c'')) \<and>
   within_capacity (snd (pop ab_queue)) \<and>
   within_capacity (snd (snd (pop_batch ab_queue [] 1)))"
proof -
  have h: "within_capacity ab_queue"
    by (simp add: within_capacity_def ab_queue_def BatchQueue_init_def)
  show ?thesis
    using h capacity_bound_invariant [OF h, of 2 100 "CHR ''c''" "[]" 1] by simp
qed

section \<open>Properties of the engine\<close>

lemma log_keeps_dropped_count:
  "get_dropped_count (snd (AsyncLogger_log e message)) = get_dropped_count e"
  by (simp add: AsyncLogger_log_def get_dropped_count_def split: prod.splits)

lemma get_drop_rate_formula:
  "get_queue_size e + get_dropped_count e < 2 ^ 64 \<Longrightarrow>
   get_drop_rate e =
     (if get_dropped_count e = 0 \<and> get_queue_size e = 0 then 0
      else real (get_dropped_count e) / real (get_dropped_count e + get_queue_size e))"
  by (simp add: get_drop_rate_def Let_def add.commute)

lemmas engine_defs = AsyncLogger_log_def try_push_def start_def stop_def
  AsyncLogger_init_def AsyncLoggerConfig_default_def BatchQueue_init_def
  get_queue_size_def get_queue_capacity_def get_dropped_count_def size_q_def
  capacity_def get_max_size_def default_engine_def

text \<open>
  C1. On the running engine of capacity 2 that holds two records, \<^verbatim>\<open>log\<close> of a third
  record returns false and the queue still holds two records, but the count of dropped
  records is 0 afterwards, not 1: \<^verbatim>\<open>log\<close> returns the result of \<^verbatim>\<open>try_push\<close> and never
  writes \<^verbatim>\<open>dropped_count_\<close>.
\<close>

theorem log_on_full_queue_leaves_counter:
  "get_queue_size two_slot_engine = 2 \<and>
   get_dropped_count two_slot_engine = 0 \<and>
   fst (AsyncLogger_log two_slot_engine (mk_message INFO ''C'')) = False \<and>
   get_dropped_count (snd (AsyncLogger_log two_slot_engine (mk_message INFO ''C''))) = 0 \<and>
   get_queue_size (snd (AsyncLogger_log two_slot_engine (mk_message INFO ''C''))) = 2"
  by (simp add: two_slot_engine_def engine_defs)

text \<open>
  C7. Five \<^verbatim>\<open>log\<close> calls on a running engine of capacity 3: the first three succeed and
  stay queued, the last two are rejected; the count of dropped records is still 0, so
  \<^verbatim>\<open>get_drop_rate\<close> is 0 and not 2/5.
\<close>

theorem drop_rate_after_two_drops:
  "fst five_logs = [True, True, True, False, False] \<and>
   get_queue_size (snd five_logs) = 3 \<and>
   get_dropped_count (snd five_logs) = 0 \<and>
   get_drop_rate (snd five_logs) = 0 \<and>
   get_drop_rate (snd five_logs) \<noteq> 2 / 5"
  by (simp add: five_logs_def engine_defs get_drop_rate_def)

text \<open>
  C3. On the default engine (one worker thread), \<^verbatim>\<open>start\<close> followed by \<^verbatim>\<open>stop(false)\<close>
  ends in \<^verbatim>\<open>std::terminate\<close>: the worker is not joined and \<^verbatim>\<open>workers_.clear()\<close> destroys
  its joinable thread object. \<^verbatim>\<open>stop(true)\<close> on the same engine returns.
\<close>

theorem stop_without_wait_terminates:
  "running_m (start default_engine) \<and>
   workers_m (start default_engine) = [Thread True] \<and>
   stop False (start default_engine) = Terminate \<and>
   stop True (start default_engine) = Returns (default_engine\<lparr>stop_requested_m := True\<rparr>)"
  by (simp add: engine_defs)

text \<open>
  C10. A new engine is not running. \<^verbatim>\<open>log\<close> on an engine that is not running returns
  false and leaves the engine, its queue included, as it is, whatever the queue holds; a
  \<^verbatim>\<open>log\<close> that returns true was called on a running engine; \<^verbatim>\<open>log\<close> does not change
  whether the engine runs; and after a \<^verbatim>\<open>stop\<close> that returns the engine is not running.
\<close>

theorem log_requires_running:
  "\<not> running_m (AsyncLogger_init config) \<and>
   (\<not> running_m e \<longrightarrow> AsyncLogger_log e message = (False, e)) \<and>
   (fst (AsyncLogger_log e message) \<longrightarrow> running_m e) \<and>
   running_m (snd (AsyncLogger_log e message)) = running_m e \<and>
   (stop w e = Returns e' \<longrightarrow> \<not> running_m e')"
proof -
  have a: "\<not> running_m (AsyncLogger_init config)" by (simp add: AsyncLogger_init_def)
  have b: "\<not> running_m e \<longrightarrow> AsyncLogger_log e message = (False, e)"
    by (simp add: AsyncLogger_log_def)
  have c: "fst (AsyncLogger_log e message) \<longrightarrow> running_m e"
    by (simp add: AsyncLogger_log_def)
  have d: "running_m (snd (AsyncLogger_log e message)) = running_m e"
    by (simp add: AsyncLogger_log_def split: prod.splits)
  have f: "stop w e = Returns e' \<longrightarrow> \<not> running_m e'"
    by (auto simp: stop_def Let_def split: if_splits fate.splits)
  show ?thesis using a b c d f by blast
qed

text \<open>
  C10 on the default engine, whose queue is empty and has capacity 10000: \<^verbatim>\<open>log\<close> before
  \<^verbatim>\<open>start\<close> fails and enqueues nothing, \<^verbatim>\<open>log\<close> after \<^verbatim>\<open>start\<close> succeeds, and \<^verbatim>\<open>log\<close>
  after \<^verbatim>\<open>start\<close> and \<^verbatim>\<open>stop(true)\<close> fails again.
\<close>

theorem log_requires_running_witness:
  "\<not> running_m default_engine \<and>
   get_queue_size default_engine < get_queue_capacity default_engine \<and>
   AsyncLogger_log default_engine (mk_message INFO ''A'') = (False, default_engine) \<and>
   fst (AsyncLogger_log (start default_engine) (mk_message INFO ''A'')) \<and>
   running_m (start default_engine) \<and>
   stop True (start default_engine) = Returns (default_engine\<lparr>stop_requested_m := True\<rparr>) \<and>
   \<not> running_m (default_engine\<lparr>stop_requested_m := True\<rparr>) \<and>
   \<not> fst (AsyncLogger_log (default_engine\<lparr>stop_requested_m := True\<rparr>) (mk_message INFO ''A''))"
proof -
  let ?m = "mk_message INFO ''A''"
  let ?stopped = "default_engine\<lparr>stop_requested_m := True\<rparr>"
  have idle: "\<not> running_m default_engine" by (simp add: engine_defs)
  have room: "get_queue_size default_engine < get_queue_capacity default_engine"
    by (simp add: engine_defs)
  have ok: "fst (AsyncLogger_log (start default_engine) ?m)" by (simp add: engine_defs)
  have st: "stop True (start default_engine) = Returns ?stopped" by (simp add: engine_defs)
  have 1: "AsyncLogger_log default_engine ?m = (False, default_engine)"
    using idle log_requires_running [of AsyncLoggerConfig_default default_engine ?m True ?stopped]
    by blast
  have 2: "running_m (start default_engine)"
    using ok log_requires_running
      [of AsyncLoggerConfig_default "start default_engine" ?m True ?stopped]
    by blast
  have 3: "\<not> running_m ?stopped"
    using st log_requires_running
      [of AsyncLoggerConfig_default "start default_engine" ?m True ?stopped]
    by blast
  have 4: "\<not> fst (AsyncLogger_log ?stopped ?m)"
    using 3 log_requires_running [of AsyncLoggerConfig_default ?stopped ?m True ?stopped]
    by simp
  show ?thesis using idle room ok st 1 2 3 4 by blast
qed

section \<open>Properties of the sinks and of dispatch\<close>

lemma level_ge_unat: "level_ge a b = (unat (level_u8 b) \<le> unat (level_u8 a))"
  by (simp add: level_ge_def word_le_nat_alt)

lemma should_log_threshold: "should_log sink lv = level_ge lv (get_level sink)"
  by (induction sink) simp_all

lemma sinks_loop_append:
  "sinks_loop (sinks @ sinks') msg tr =
     (case sinks_loop sinks msg tr of
        (Normal, tr') \<Rightarrow> sinks_loop sinks' msg tr'
      | (Thrown, tr') \<Rightarrow> (Thrown, tr'))"
proof (induction sinks arbitrary: tr)
  case Nil
  show ?case by simp
next
  case (Cons sink sinks)
  obtain st tr1 where r: "sink_log sink msg tr = (st, tr1)" by (cases "sink_log sink msg tr")
  show ?case using Cons [of tr1] Cons [of tr] r by (cases st) simp_all
qed

text \<open>
  What a sink does with a record does not depend on the trace so far: it raises or not,
  and it appends the same events.
\<close>

lemma composite_log_trace:
  assumes "\<And>c t. c \<in> set cs \<Longrightarrow> sink_log c m t = (fst (sink_log c m []), t @ snd (sink_log c m []))"
  shows "composite_log cs m tr = (fst (composite_log cs m []), tr @ snd (composite_log cs m []))"
  using assms
proof (induction cs arbitrary: tr)
  case Nil
  show ?case by simp
next
  case (Cons c cs)
  have c: "sink_log c m t = (fst (sink_log c m []), t @ snd (sink_log c m []))" for t
    by (rule Cons.prems) simp
  have ih: "composite_log cs m t = (fst (composite_log cs m []), t @ snd (composite_log cs m []))"
    for t
  proof (rule Cons.IH)
    fix c' t'
    assume "c' \<in> set cs"
    then have "c' \<in> set (c # cs)" by simp
    then show "sink_log c' m t' = (fst (sink_log c' m []), t' @ snd (sink_log c' m []))"
      by (rule Cons.prems)
  qed
  obtain st evs where r: "sink_log c m [] = (st, evs)" by (cases "sink_log c m []")
  have ct: "sink_log c m tr = (st, tr @ evs)" using c [of tr] r by simp
  show ?case
  proof (cases "should_log c (level_m m)")
    case False
    then show ?thesis using ih [of tr] by simp
  next
    case True
    show ?thesis
    proof (cases st)
      case Normal
      then show ?thesis using True r ct ih [of "tr @ evs"] ih [of evs] by simp
    next
      case Thrown
      then show ?thesis using True r ct by simp
    qed
  qed
qed

lemma sink_log_trace:
  "sink_log sink m tr = (fst (sink_log sink m []), tr @ snd (sink_log sink m []))"
proof (induction sink arbitrary: tr)
  case (ExternalSink i l w f)
  show ?case by simp
next
  case (CompositeLogSink l cs)
  have "composite_log cs m tr = (fst (composite_log cs m []), tr @ snd (composite_log cs m []))"
    by (rule composite_log_trace) (rule CompositeLogSink)
  then show ?case by simp
next
  case (FilterLogSink l c p)
  show ?case using FilterLogSink [of tr] by (cases p) simp_all
qed

lemma sinks_loop_delivers:
  assumes "\<forall>sink\<in>set sinks. level_ge (level_m msg) (get_level sink) \<longrightarrow>
             fst (sink_log sink msg []) = Normal"
  shows "sinks_loop sinks msg tr =
     (Normal, tr @ concat (map (\<lambda>sink. snd (sink_log sink msg []))
                        (filter (\<lambda>sink. level_ge (level_m msg) (get_level sink)) sinks)))"
  using assms
proof (induction sinks arbitrary: tr)
  case Nil
  show ?case by simp
next
  case (Cons sink sinks)
  have ih: "\<And>t. sinks_loop sinks msg t =
     (Normal, t @ concat (map (\<lambda>sink. snd (sink_log sink msg []))
                        (filter (\<lambda>sink. level_ge (level_m msg) (get_level sink)) sinks)))"
    using Cons.IH Cons.prems by simp
  show ?case
  proof (cases "level_ge (level_m msg) (get_level sink)")
    case False
    then show ?thesis using ih [of tr] by (simp add: should_log_threshold)
  next
    case True
    then have "fst (sink_log sink msg []) = Normal" using Cons.prems by simp
    then have "sink_log sink msg tr = (Normal, tr @ snd (sink_log sink msg []))"
      using sink_log_trace [of sink msg tr] by simp
    then show ?thesis using True ih [of "tr @ snd (sink_log sink msg [])"]
      by (simp add: should_log_threshold)
  qed
qed

lemma batch_messages_loop_delivers:
  assumes "\<forall>msg\<in>set batch. \<forall>sink\<in>set sinks. level_ge (level_m msg) (get_level sink) \<longrightarrow>
             fst (sink_log sink msg []) = Normal"
  shows "batch_messages_loop sinks batch tr =
     (Normal, tr @ concat (map (\<lambda>msg. concat (map (\<lambda>sink. snd (sink_log sink msg []))
                        (filter (\<lambda>sink. level_ge (level_m msg) (get_level sink)) sinks))) batch))"
  using assms
proof (induction batch arbitrary: tr)
  case Nil
  show ?case by simp
next
  case (Cons msg batch)
  have one: "\<And>t. sinks_loop sinks msg t =
     (Normal, t @ concat (map (\<lambda>sink. snd (sink_log sink msg []))
                        (filter (\<lambda>sink. level_ge (level_m msg) (get_level sink)) sinks)))"
    using sinks_loop_delivers [of sinks msg] Cons.prems by simp
  have ih: "\<And>t. batch_messages_loop sinks batch t =
     (Normal, t @ concat (map (\<lambda>msg. concat (map (\<lambda>sink. snd (sink_log sink msg []))
                        (filter (\<lambda>sink. level_ge (level_m msg) (get_level sink)) sinks))) batch))"
    using Cons.IH Cons.prems by simp
  show ?case by (simp add: one ih)
qed

lemma batch_messages_loop_append:
  "batch_messages_loop sinks (pre @ post) tr =
     (case batch_messages_loop sinks pre tr of
        (Normal, tr') \<Rightarrow> batch_messages_loop sinks post tr'
      | (Thrown, tr') \<Rightarrow> (Thrown, tr'))"
proof (induction pre arbitrary: tr)
  case Nil
  show ?case by simp
next
  case (Cons msg pre)
  obtain st tr1 where r: "sinks_loop sinks msg tr = (st, tr1)" by (cases "sinks_loop sinks msg tr")
  show ?case using Cons [of tr1] r by (cases st) simp_all
qed

lemma remaining_loop_after_prefix:
  "batch_messages_loop sinks pre tr = (Normal, tr0) \<Longrightarrow>
   remaining_loop sinks (pre @ post) tr = remaining_loop sinks post tr0"
proof (induction pre arbitrary: tr)
  case Nil
  then show ?case by simp
next
  case (Cons msg pre)
  obtain st tr1 where r: "sinks_loop sinks msg tr = (st, tr1)" by (cases "sinks_loop sinks msg tr")
  show ?case
  proof (cases st)
    case Normal
    then show ?thesis using Cons.IH [of tr1] Cons.prems r by simp
  next
    case Thrown
    then show ?thesis using Cons.prems r by simp
  qed
qed

lemmas sample_defs = with_sinks_def failing_sink_def info_sink_def error_sink_def
  trace_sink_def warn_filter_sink_def at_least_warn_def mk_message_def AsyncLogger_init_def
  AsyncLoggerConfig_default_def add_sink_def process_batch_def process_message_def
  level_ge_unat

text \<open>
  C8, as stated, fails: sink 3 is registered and a FATAL record reaches its threshold
  ERROR (handed the record, it would write it), but with a sink whose write raises
  registered before it, \<^verbatim>\<open>process_batch\<close> does not deliver the record to sink 3.
\<close>

theorem failing_sink_starves_later_sink:
  "error_sink \<in> set (sinks_m (with_sinks [failing_sink, error_sink])) \<and>
   level_ge (level_m (mk_message FATAL ''f'')) (get_level error_sink) \<and>
   sink_log error_sink (mk_message FATAL ''f'') [] = (Normal, [Write 3 (mk_message FATAL ''f'')]) \<and>
   Write 3 (mk_message FATAL ''f'')
     \<notin> set (snd (process_batch (with_sinks [failing_sink, error_sink]) [mk_message FATAL ''f''] []))"
proof -
  have a: "error_sink \<in> set (sinks_m (with_sinks [failing_sink, error_sink]))"
    by (simp add: with_sinks_def add_sink_def AsyncLogger_init_def)
  have b: "level_ge (level_m (mk_message FATAL ''f'')) (get_level error_sink)"
    by (simp add: error_sink_def mk_message_def level_ge_unat)
  have c: "sink_log error_sink (mk_message FATAL ''f'') [] =
      (Normal, [Write 3 (mk_message FATAL ''f'')])"
    by (simp add: error_sink_def)
  have d: "Write 3 (mk_message FATAL ''f'')
     \<notin> set (snd (process_batch (with_sinks [failing_sink, error_sink]) [mk_message FATAL ''f''] []))"
    by (simp add: with_sinks_def failing_sink_def error_sink_def mk_message_def
        AsyncLogger_init_def AsyncLoggerConfig_default_def add_sink_def process_batch_def
        level_ge_unat)
  show ?thesis using a b c d by blast
qed

text \<open>
  C8, amended. In a dispatch pass in which no registered sink raises on a record whose
  level reaches its threshold, \<^verbatim>\<open>process_batch\<close> returns, and the trace grows by exactly
  what the sinks write: record by record in batch order and, for each record, sink by
  sink in the order of \<^verbatim>\<open>sinks_\<close>, from the sinks whose threshold the record's level
  reaches and from no other; \<^verbatim>\<open>process_message\<close> does the same for one record. So an
  event is in the trace afterwards if and only if it was there before or is written by a
  registered sink for a record of the batch whose level reaches that sink's threshold;
  and for a writing sink that alone writes under its identity, its write of a record of
  the batch is in the trace if and only if the record's level reaches its threshold.
  \<^verbatim>\<open>add_sink\<close> appends, so the order of \<^verbatim>\<open>sinks_\<close> is the order of insertion.
\<close>

theorem dispatch_by_threshold:
  assumes "\<forall>msg\<in>set batch. \<forall>sink\<in>set (sinks_m e).
             level_ge (level_m msg) (get_level sink) \<longrightarrow> fst (sink_log sink msg []) = Normal"
  shows "process_batch e batch tr =
           (Normal, tr @ concat (map (\<lambda>msg. concat (map (\<lambda>sink. snd (sink_log sink msg []))
                     (filter (\<lambda>sink. level_ge (level_m msg) (get_level sink)) (sinks_m e)))) batch)) \<and>
         (\<forall>msg\<in>set batch. process_message e msg tr =
           (Normal, tr @ concat (map (\<lambda>sink. snd (sink_log sink msg []))
                     (filter (\<lambda>sink. level_ge (level_m msg) (get_level sink)) (sinks_m e))))) \<and>
         (ev \<in> set (snd (process_batch e batch tr))) =
           (ev \<in> set tr \<or> (\<exists>msg\<in>set batch. \<exists>sink\<in>set (sinks_m e).
              level_ge (level_m msg) (get_level sink) \<and> ev \<in> set (snd (sink_log sink msg [])))) \<and>
         (\<forall>msg\<in>set batch. ExternalSink i l w f \<in> set (sinks_m e) \<and>
            (\<forall>sink\<in>set (sinks_m e). \<forall>m m'. Write i m \<in> set (snd (sink_log sink m' [])) \<longrightarrow>
               sink = ExternalSink i l w f) \<longrightarrow>
            (Write i msg \<in> set (snd (process_batch e batch []))) = level_ge (level_m msg) l) \<and>
         sinks_m (add_sink e sink') = sinks_m e @ [sink']"
proof -
  let ?acc = "\<lambda>msg sink. level_ge (level_m msg) (get_level sink)"
  have run: "\<And>t. process_batch e batch t =
           (Normal, t @ concat (map (\<lambda>msg. concat (map (\<lambda>sink. snd (sink_log sink msg []))
                     (filter (?acc msg) (sinks_m e)))) batch))"
    using batch_messages_loop_delivers [OF assms] by (simp add: process_batch_def)
  have single: "\<forall>msg\<in>set batch. process_message e msg tr =
           (Normal, tr @ concat (map (\<lambda>sink. snd (sink_log sink msg []))
                     (filter (?acc msg) (sinks_m e))))"
  proof
    fix msg assume "msg \<in> set batch"
    then have "\<forall>sink\<in>set (sinks_m e). ?acc msg sink \<longrightarrow> fst (sink_log sink msg []) = Normal"
      using assms by simp
    then show "process_message e msg tr =
           (Normal, tr @ concat (map (\<lambda>sink. snd (sink_log sink msg []))
                     (filter (?acc msg) (sinks_m e))))"
      using sinks_loop_delivers [of "sinks_m e" msg tr] by (simp add: process_message_def)
  qed
  have events: "\<And>ev t. (ev \<in> set (snd (process_batch e batch t))) =
           (ev \<in> set t \<or> (\<exists>msg\<in>set batch. \<exists>sink\<in>set (sinks_m e).
              ?acc msg sink \<and> ev \<in> set (snd (sink_log sink msg []))))"
    by (auto simp: run)
  have ext: "\<forall>msg\<in>set batch. ExternalSink i l w f \<in> set (sinks_m e) \<and>
            (\<forall>sink\<in>set (sinks_m e). \<forall>m m'. Write i m \<in> set (snd (sink_log sink m' [])) \<longrightarrow>
               sink = ExternalSink i l w f) \<longrightarrow>
            (Write i msg \<in> set (snd (process_batch e batch []))) = level_ge (level_m msg) l"
  proof (intro ballI impI)
    fix msg
    assume msg: "msg \<in> set batch"
      and h: "ExternalSink i l w f \<in> set (sinks_m e) \<and>
            (\<forall>sink\<in>set (sinks_m e). \<forall>m m'. Write i m \<in> set (snd (sink_log sink m' [])) \<longrightarrow>
               sink = ExternalSink i l w f)"
    show "(Write i msg \<in> set (snd (process_batch e batch []))) = level_ge (level_m msg) l"
    proof
      assume "Write i msg \<in> set (snd (process_batch e batch []))"
      then obtain msg' sink where m': "msg' \<in> set batch" and s: "sink \<in> set (sinks_m e)"
        and a: "?acc msg' sink" and wr: "Write i msg \<in> set (snd (sink_log sink msg' []))"
        using events [of "Write i msg" "[]"] by auto
      have sink: "sink = ExternalSink i l w f" using h s wr by blast
      then have "msg' = msg" using wr by (simp split: if_splits)
      then show "level_ge (level_m msg) l" using a sink by simp
    next
      assume a: "level_ge (level_m msg) l"
      then have acc: "level_ge (level_m msg) (get_level (ExternalSink i l w f))" by simp
      have mem: "ExternalSink i l w f \<in> set (sinks_m e)" using h by blast
      have "fst (sink_log (ExternalSink i l w f) msg []) = Normal"
        using assms msg mem acc by blast
      then have wr: "Write i msg \<in> set (snd (sink_log (ExternalSink i l w f) msg []))"
        by (simp split: if_splits)
      have "\<exists>msg'\<in>set batch. \<exists>sink\<in>set (sinks_m e).
              level_ge (level_m msg') (get_level sink) \<and>
              Write i msg \<in> set (snd (sink_log sink msg' []))"
        using msg mem acc wr by blast
      then show "Write i msg \<in> set (snd (process_batch e batch []))"
        using events [of "Write i msg" "[]"] by blast
    qed
  qed
  have order: "sinks_m (add_sink e sink') = sinks_m e @ [sink']" by (simp add: add_sink_def)
  show ?thesis using run [of tr] single events [of ev tr] ext order by blast
qed


text \<open>
  C8, amended, on sinks 2 (threshold INFO) and 3 (threshold ERROR): a WARN record
  reaches sink 2 only, a FATAL record reaches sink 2 and then sink 3, a DEBUG record
  reaches neither.
\<close>

theorem dispatch_by_threshold_witness:
  "process_batch (with_sinks [info_sink, error_sink])
       [mk_message WARN ''w'', mk_message FATAL ''f'', mk_message DEBUG ''d''] [] =
     (Normal, [Write 2 (mk_message WARN ''w''), Write 2 (mk_message FATAL ''f''),
               Write 3 (mk_message FATAL ''f'')]) \<and>
   process_message (with_sinks [info_sink, error_sink]) (mk_message WARN ''w'') [] =
     (Normal, [Write 2 (mk_message WARN ''w'')])"
proof -
  let ?e = "with_sinks [info_sink, error_sink]"
  let ?batch = "[mk_message WARN ''w'', mk_message FATAL ''f'', mk_message DEBUG ''d'']"
  have sinks: "sinks_m ?e = [info_sink, error_sink]"
    by (simp add: with_sinks_def add_sink_def AsyncLogger_init_def)
  have h: "\<forall>msg\<in>set ?batch. \<forall>sink\<in>set (sinks_m ?e).
      level_ge (level_m msg) (get_level sink) \<longrightarrow> fst (sink_log sink msg []) = Normal"
    unfolding sinks by (simp add: info_sink_def error_sink_def)
  have all: "process_batch ?e ?batch [] =
      (Normal, [] @ concat (map (\<lambda>msg. concat (map (\<lambda>sink. snd (sink_log sink msg []))
         (filter (\<lambda>sink. level_ge (level_m msg) (get_level sink)) (sinks_m ?e)))) ?batch))"
    using dispatch_by_threshold [OF h, where tr = "[]"] by blast
  have one: "process_message ?e (mk_message WARN ''w'') [] =
      (Normal, [] @ concat (map (\<lambda>sink. snd (sink_log sink (mk_message WARN ''w'') []))
         (filter (\<lambda>sink. level_ge (level_m (mk_message WARN ''w'')) (get_level sink))
            (sinks_m ?e))))"
    using dispatch_by_threshold [OF h, where tr = "[]"] by simp
  show ?thesis
    using all one unfolding sinks
    by (simp add: info_sink_def error_sink_def mk_message_def level_ge_unat)
qed


text \<open>
  C9. A \<^verbatim>\<open>FilterLogSink\<close> with a predicate hands a record to its child exactly when the
  predicate holds of the record, and does nothing otherwise; \<^verbatim>\<open>flush\<close>, \<^verbatim>\<open>get_level\<close> and
  \<^verbatim>\<open>should_log\<close> are the child's, \<^verbatim>\<open>flush\<close> whatever the predicate is.
\<close>

theorem filter_sink_delegates:
  "sink_log (FilterLogSink l child (Some predicate)) msg tr =
     (if predicate msg then sink_log child msg tr else (Normal, tr)) \<and>
   sink_flush (FilterLogSink l child (Some predicate)) tr = sink_flush child tr \<and>
   get_level (FilterLogSink l child (Some predicate)) = get_level child \<and>
   should_log (FilterLogSink l child (Some predicate)) lv = should_log child lv"
  by simp

text \<open>
  C9 on the filter \<^verbatim>\<open>level >= WARN\<close> around sink 4: an INFO record writes nothing, an ERROR
  record is written once, and \<^verbatim>\<open>flush\<close> reaches sink 4.
\<close>

theorem filter_sink_delegates_witness:
  "sink_log warn_filter_sink (mk_message INFO ''i'') [] = (Normal, []) \<and>
   sink_log warn_filter_sink (mk_message ERROR ''e'') [] =
     (Normal, [Write 4 (mk_message ERROR ''e'')]) \<and>
   sink_flush warn_filter_sink [] = (Normal, [Flush 4]) \<and>
   get_level warn_filter_sink = TRACE"
  using filter_sink_delegates [of INFO trace_sink at_least_warn "mk_message INFO ''i''" "[]"]
    filter_sink_delegates [of INFO trace_sink at_least_warn "mk_message ERROR ''e''" "[]"]
  by (simp add: sample_defs)

text \<open>
  C2, as stated, fails: with a sink whose write raises registered before sink 2,
  \<^verbatim>\<open>process_batch\<close> on one ERROR record ends with the exception, and sink 2, whose
  threshold the record reaches, has not received the record.
\<close>

theorem failing_sink_stops_fan_out:
  "fst (process_batch (with_sinks [failing_sink, info_sink]) [mk_message ERROR ''x''] []) = Thrown \<and>
   Write 2 (mk_message ERROR ''x'')
     \<notin> set (snd (process_batch (with_sinks [failing_sink, info_sink]) [mk_message ERROR ''x''] []))"
  by (simp add: sample_defs)

text \<open>
  C2, amended. Take any dispatch pass and the first record of the batch on which a sink
  raises: the records before it were dispatched without an exception, the sinks
  registered before the raising sink have taken the record without raising, and the
  raising sink's threshold is reached by the record's level. Then the exception leaves
  \<^verbatim>\<open>process_batch\<close> (and \<^verbatim>\<open>process_message\<close> for that record) with the trace as the
  raising sink left it: the sinks registered after it do not receive the record, and the
  later records of the batch are not dispatched. The worker's drain on exit ends with the
  exception in the same way when the queue holds these records.
\<close>

theorem sink_failure_propagates:
  assumes "sinks_m e = before @ failing # after"
    and "batch_messages_loop (sinks_m e) pre tr = (Normal, tr0)"
    and "sinks_loop before msg tr0 = (Normal, tr1)"
    and "should_log failing (level_m msg)"
    and "sink_log failing msg tr1 = (Thrown, tr2)"
  shows "process_batch e (pre @ msg # rest) tr = (Thrown, tr2) \<and>
         process_message e msg tr0 = (Thrown, tr2) \<and>
         (queue_m (logger_queue_m e) = pre @ msg # rest \<longrightarrow>
            fst (worker_exit e tr) = Thrown \<and> snd (snd (worker_exit e tr)) = tr2)"
proof -
  have one: "sinks_loop (sinks_m e) msg tr0 = (Thrown, tr2)"
    using assms(1,3-5) by (simp add: sinks_loop_append)
  have batch: "process_batch e (pre @ msg # rest) tr = (Thrown, tr2)"
    using one assms(2) by (simp add: process_batch_def batch_messages_loop_append)
  have single: "process_message e msg tr0 = (Thrown, tr2)"
    using one by (simp add: process_message_def)
  have "remaining_loop (sinks_m e) (pre @ msg # rest) tr = (Thrown, rest, tr2)"
    using remaining_loop_after_prefix [OF assms(2), of "msg # rest"] one by simp
  then have exit: "queue_m (logger_queue_m e) = pre @ msg # rest \<longrightarrow>
            fst (worker_exit e tr) = Thrown \<and> snd (snd (worker_exit e tr)) = tr2"
    by (simp add: worker_exit_def)
  show ?thesis using batch single exit by blast
qed

text \<open>
  C2, amended, on sinks 2, the raising sink and 3, with a DEBUG record, an ERROR record
  and a FATAL one: the DEBUG record reaches no sink, sink 2 writes the ERROR record, and
  nothing else is written.
\<close>

theorem sink_failure_propagates_witness:
  "process_batch (with_sinks [info_sink, failing_sink, error_sink])
       [mk_message DEBUG ''d'', mk_message ERROR ''x'', mk_message FATAL ''y''] [] =
     (Thrown, [Write 2 (mk_message ERROR ''x'')]) \<and>
   process_message (with_sinks [info_sink, failing_sink, error_sink]) (mk_message ERROR ''x'') [] =
     (Thrown, [Write 2 (mk_message ERROR ''x'')])"
proof -
  let ?e = "with_sinks [info_sink, failing_sink, error_sink]"
  let ?m = "mk_message ERROR ''x''"
  have h1: "sinks_m ?e = [info_sink] @ failing_sink # [error_sink]"
    by (simp add: with_sinks_def add_sink_def AsyncLogger_init_def)
  have h2: "batch_messages_loop (sinks_m ?e) [mk_message DEBUG ''d''] [] = (Normal, [])"
    unfolding h1
    by (simp add: info_sink_def failing_sink_def error_sink_def mk_message_def level_ge_unat)
  have h3: "sinks_loop [info_sink] ?m [] = (Normal, [Write 2 ?m])"
    by (simp add: info_sink_def mk_message_def level_ge_unat)
  have h4: "should_log failing_sink (level_m ?m)"
    by (simp add: failing_sink_def mk_message_def level_ge_unat)
  have h5: "sink_log failing_sink ?m [Write 2 ?m] = (Thrown, [Write 2 ?m])"
    by (simp add: failing_sink_def)
  show ?thesis
    using sink_failure_propagates [OF h1 h2 h3 h4 h5, of "[mk_message FATAL ''y'']"] by simp
qed

end
